theory Spec2Isabelle
  imports Main "HOL-Library.Char_ord" "HOL-Library.List_Lexorder" "HOL-Library.Product_Lexorder"
begin

section \<open>Python values shared by the tutorials\<close>

text \<open>
  The exceptions the modelled functions can raise. \<open>IndexError\<close>, \<open>KeyError\<close> and
  \<open>NameError\<close> are raised by the interpreter (a subscript out of range, a missing
  dictionary key, a name that is bound nowhere). \<open>InvalidNodeError\<close> and
  \<open>EmptyStructureError\<close> are the names of the specification's taxonomy; no function of
  the tutorials raises them.
\<close>

datatype error = IndexError | KeyError | NameError | InvalidNodeError | EmptyStructureError

text \<open>
  Subscripts of a Python list: an index \<open>i\<close> with \<open>-len \<le> i < 0\<close> counts from the end,
  an index outside \<open>[-len, len)\<close> raises \<open>IndexError\<close>.
\<close>

definition py_index :: "'a list \<Rightarrow> int \<Rightarrow> error + nat" where
  "py_index xs i =
     (let n = int (length xs); j = (if i < 0 then n + i else i)
      in if 0 \<le> j \<and> j < n then Inr (nat j) else Inl IndexError)"

definition getitem :: "'a list \<Rightarrow> int \<Rightarrow> error + 'a" where
  "getitem xs i = (case py_index xs i of Inl e \<Rightarrow> Inl e | Inr j \<Rightarrow> Inr (xs ! j))"

definition setitem :: "'a list \<Rightarrow> int \<Rightarrow> 'a \<Rightarrow> error + 'a list" where
  "setitem xs i v = (case py_index xs i of Inl e \<Rightarrow> Inl e | Inr j \<Rightarrow> Inr (xs[j := v]))"

lemma py_index_bound: "py_index xs i = Inr j \<Longrightarrow> j < length xs"
  by (auto simp: py_index_def Let_def split: if_splits)

lemma getitem_in_set: "getitem xs i = Inr v \<Longrightarrow> v \<in> set xs"
  by (auto simp: getitem_def split: sum.splits dest: py_index_bound)

section \<open>Monotonic stack (python\_13\_feb\_501.py)\<close>

text \<open>
  \<open>self.stack\<close> is a Python list whose last element is the top. \<open>push\<close> pops while the
  stack is not empty and \<open>val < self.stack[-1]\<close>, then appends \<open>val\<close>.
\<close>

type_synonym 'a MonotonicStack = "'a list"

definition MonotonicStack_init :: "'a MonotonicStack" where
  "MonotonicStack_init = []"

function push :: "'a::linorder \<Rightarrow> 'a MonotonicStack \<Rightarrow> 'a MonotonicStack" where
  "push val stack =
     (if stack \<noteq> [] \<and> val < last stack then push val (butlast stack) else stack @ [val])"
  by pat_completeness auto
termination
  by (relation "measure (\<lambda>(val, stack). length stack)") auto

declare push.simps [simp del]

text \<open>A sequence of pushes, applied in order to a stack.\<close>

definition pushes :: "'a::linorder list \<Rightarrow> 'a MonotonicStack \<Rightarrow> 'a MonotonicStack" where
  "pushes vals stack = foldl (\<lambda>s v. push v s) stack vals"

lemma sorted_butlast_stack: "sorted stack \<Longrightarrow> sorted (butlast stack)"
  by (induction stack) (auto dest: in_set_butlastD)

lemma sorted_le_last: "sorted stack \<Longrightarrow> x \<in> set stack \<Longrightarrow> x \<le> last stack"
  by (induction stack) auto

lemma push_sorted: "sorted stack \<Longrightarrow> sorted (push val stack)"
proof (induction val stack rule: push.induct)
  case (1 val stack)
  show ?case
  proof (cases "stack \<noteq> [] \<and> val < last stack")
    case True
    then have "push val stack = push val (butlast stack)"
      by (subst push.simps) simp
    moreover have "sorted (push val (butlast stack))"
      using "1.IH" True "1.prems" sorted_butlast_stack by blast
    ultimately show ?thesis by simp
  next
    case False
    then have eq: "push val stack = stack @ [val]"
      by (subst push.simps) auto
    have "x \<le> val" if "x \<in> set stack" for x
    proof -
      from that have ne: "stack \<noteq> []" by auto
      with False have "last stack \<le> val" by simp
      moreover have "x \<le> last stack" using sorted_le_last "1.prems" that by blast
      ultimately show ?thesis by simp
    qed
    with "1.prems" show ?thesis
      unfolding eq by (simp add: sorted_append)
  qed
qed

lemma pushes_sorted: "sorted stack \<Longrightarrow> sorted (pushes vals stack)"
  unfolding pushes_def
  by (induction vals arbitrary: stack) (simp_all add: push_sorted)

text \<open>
  Claim C6. After any finite sequence of pushes on an initially empty monotonic stack
  (no pops), the stack read from bottom to top is sorted in non-decreasing order.
\<close>

theorem monotonic_stack_pushes_sorted:
  "sorted (pushes vals MonotonicStack_init)"
  by (rule pushes_sorted) (simp add: MonotonicStack_init_def)

section \<open>Merge sort, index-based merge (python\_10\_feb\_246.py)\<close>

text \<open>
  \<open>merge\<close> runs three \<open>while\<close> loops over the indices \<open>left_index\<close> and \<open>right_index\<close>.
  Both start at 0, only grow, and every subscript is guarded by \<open>index < len\<close>, so no
  subscript is out of range and the indices are natural numbers.
\<close>

function merge_loop_246 ::
  "'a::ord list \<Rightarrow> 'a list \<Rightarrow> 'a list \<Rightarrow> nat \<Rightarrow> nat \<Rightarrow> 'a list \<times> nat \<times> nat" where
  "merge_loop_246 left right merged left_index right_index =
     (if left_index < length left \<and> right_index < length right then
        (if left ! left_index \<le> right ! right_index
         then merge_loop_246 left right (merged @ [left ! left_index]) (left_index + 1) right_index
         else merge_loop_246 left right (merged @ [right ! right_index]) left_index (right_index + 1))
      else (merged, left_index, right_index))"
  by pat_completeness auto
termination
  by (relation "measure (\<lambda>(left, right, merged, li, ri). (length left - li) + (length right - ri))")
     auto

declare merge_loop_246.simps [simp del]

text \<open>The second and the third loop: append what remains of one list from an index on.\<close>

function append_rest_246 :: "'a list \<Rightarrow> 'a list \<Rightarrow> nat \<Rightarrow> 'a list" where
  "append_rest_246 xs merged i =
     (if i < length xs then append_rest_246 xs (merged @ [xs ! i]) (i + 1) else merged)"
  by pat_completeness auto
termination
  by (relation "measure (\<lambda>(xs, merged, i). length xs - i)") auto

declare append_rest_246.simps [simp del]

definition merge_246 :: "'a::ord list \<Rightarrow> 'a list \<Rightarrow> 'a list" where
  "merge_246 left right =
     (case merge_loop_246 left right [] 0 0 of
        (merged, left_index, right_index) \<Rightarrow>
          append_rest_246 right (append_rest_246 left merged left_index) right_index)"

function merge_sort_246 :: "'a::ord list \<Rightarrow> 'a list" where
  "merge_sort_246 arr =
     (if length arr \<le> 1 then arr
      else let mid = length arr div 2;
               left_half = take mid arr;
               right_half = drop mid arr
           in merge_246 (merge_sort_246 left_half) (merge_sort_246 right_half))"
  by pat_completeness auto
termination
  by (relation "measure length") auto

declare merge_sort_246.simps [simp del]

section \<open>Merge sort, pop-based merge (python\_18\_feb\_547.py)\<close>

text \<open>
  \<open>merge\<close> pops the heads of \<open>left\<close> and \<open>right\<close> while both are non-empty, then extends
  \<open>merged\<close> by what is left of each. The lists it mutates are the results of the two
  recursive calls, which are slices or fresh lists that nothing else refers to.
\<close>

function merge_loop_547 :: "'a::ord list \<Rightarrow> 'a list \<Rightarrow> 'a list \<Rightarrow> 'a list \<times> 'a list \<times> 'a list" where
  "merge_loop_547 left right merged =
     (if length left > 0 \<and> length right > 0 then
        (if hd left \<le> hd right
         then merge_loop_547 (tl left) right (merged @ [hd left])
         else merge_loop_547 left (tl right) (merged @ [hd right]))
      else (left, right, merged))"
  by pat_completeness auto
termination
  by (relation "measure (\<lambda>(left, right, merged). length left + length right)") auto

declare merge_loop_547.simps [simp del]

definition merge_547 :: "'a::ord list \<Rightarrow> 'a list \<Rightarrow> 'a list" where
  "merge_547 left right =
     (case merge_loop_547 left right [] of (left', right', merged) \<Rightarrow> merged @ left' @ right')"

function merge_sort_547 :: "'a::ord list \<Rightarrow> 'a list" where
  "merge_sort_547 arr =
     (if length arr \<le> 1 then arr
      else let mid = length arr div 2;
               left_half = take mid arr;
               right_half = drop mid arr
           in merge_547 (merge_sort_547 left_half) (merge_sort_547 right_half))"
  by pat_completeness auto
termination
  by (relation "measure length") auto

declare merge_sort_547.simps [simp del]

subsection \<open>Both merges are the two-way merge that takes from the left on ties\<close>

fun merge_lists :: "'a::ord list \<Rightarrow> 'a list \<Rightarrow> 'a list" where
  "merge_lists [] ys = ys"
| "merge_lists xs [] = xs"
| "merge_lists (x # xs) (y # ys) =
     (if x \<le> y then x # merge_lists xs (y # ys) else y # merge_lists (x # xs) ys)"

lemma merge_lists_Nil2 [simp]: "merge_lists xs [] = xs"
  by (cases xs) simp_all

lemma append_rest_246_eq: "append_rest_246 xs merged i = merged @ drop i xs"
proof (induction xs merged i rule: append_rest_246.induct)
  case (1 xs merged i)
  show ?case
  proof (cases "i < length xs")
    case True
    then have "append_rest_246 xs merged i = append_rest_246 xs (merged @ [xs ! i]) (i + 1)"
      by (subst append_rest_246.simps) simp
    also have "\<dots> = (merged @ [xs ! i]) @ drop (i + 1) xs"
      using "1.IH" True by simp
    also have "\<dots> = merged @ drop i xs"
      using True by (simp add: Cons_nth_drop_Suc)
    finally show ?thesis .
  next
    case False
    then show ?thesis by (subst append_rest_246.simps) simp
  qed
qed

lemma merge_loop_246_eq:
  "merge_loop_246 left right merged li ri = (m, li', ri') \<Longrightarrow>
   m @ drop li' left @ drop ri' right = merged @ merge_lists (drop li left) (drop ri right)"
proof (induction left right merged li ri rule: merge_loop_246.induct)
  case (1 left right merged li ri)
  show ?case
  proof (cases "li < length left \<and> ri < length right")
    case False
    with "1.prems" have "m = merged" "li' = li" "ri' = ri"
      by (simp_all add: merge_loop_246.simps)
    moreover from False have "drop li left = [] \<or> drop ri right = []" by auto
    ultimately show ?thesis by auto
  next
    case True
    define xs where "xs = drop (li + 1) left"
    define ys where "ys = drop (ri + 1) right"
    from True have dl: "drop li left = left ! li # xs"
      and dr: "drop ri right = right ! ri # ys"
      by (simp_all add: Cons_nth_drop_Suc xs_def ys_def)
    show ?thesis
    proof (cases "left ! li \<le> right ! ri")
      case le: True
      with True "1.prems"
      have "merge_loop_246 left right (merged @ [left ! li]) (li + 1) ri = (m, li', ri')"
        by (simp add: merge_loop_246.simps)
      from "1.IH"(1) [OF True le this]
      have "m @ drop li' left @ drop ri' right =
            (merged @ [left ! li]) @ merge_lists xs (drop ri right)"
        by (simp only: xs_def)
      also have "\<dots> = merged @ left ! li # merge_lists xs (right ! ri # ys)"
        by (simp only: dr append_assoc append_Cons append_Nil)
      also have "\<dots> = merged @ merge_lists (left ! li # xs) (right ! ri # ys)"
        by (simp add: le)
      also have "\<dots> = merged @ merge_lists (drop li left) (drop ri right)"
        by (simp only: dl dr)
      finally show ?thesis .
    next
      case gt: False
      with True "1.prems"
      have "merge_loop_246 left right (merged @ [right ! ri]) li (ri + 1) = (m, li', ri')"
        by (simp add: merge_loop_246.simps)
      from "1.IH"(2) [OF True gt this]
      have "m @ drop li' left @ drop ri' right =
            (merged @ [right ! ri]) @ merge_lists (drop li left) ys"
        by (simp only: ys_def)
      also have "\<dots> = merged @ right ! ri # merge_lists (left ! li # xs) ys"
        by (simp only: dl append_assoc append_Cons append_Nil)
      also have "\<dots> = merged @ merge_lists (left ! li # xs) (right ! ri # ys)"
        by (simp add: gt)
      also have "\<dots> = merged @ merge_lists (drop li left) (drop ri right)"
        by (simp only: dl dr)
      finally show ?thesis .
    qed
  qed
qed

lemma merge_246_eq: "merge_246 left right = merge_lists left right"
proof -
  obtain m li ri where r: "merge_loop_246 left right [] 0 0 = (m, li, ri)"
    by (cases "merge_loop_246 left right [] 0 0") auto
  from merge_loop_246_eq [OF r]
  have "m @ drop li left @ drop ri right = merge_lists left right" by simp
  then show ?thesis
    by (simp add: merge_246_def r append_rest_246_eq)
qed

lemma merge_loop_547_eq:
  "merge_loop_547 left right merged = (l, r, m) \<Longrightarrow>
   m @ l @ r = merged @ merge_lists left right"
proof (induction left right merged rule: merge_loop_547.induct)
  case (1 left right merged)
  show ?case
  proof (cases "length left > 0 \<and> length right > 0")
    case False
    then have "merge_loop_547 left right merged = (left, right, merged)"
      by (subst merge_loop_547.simps) auto
    with "1.prems" have "l = left" "r = right" "m = merged"
      by simp_all
    moreover from False have "left = [] \<or> right = []" by auto
    ultimately show ?thesis by auto
  next
    case True
    then obtain x xs y ys where lr: "left = x # xs" "right = y # ys"
      by (cases left; cases right) auto
    show ?thesis
    proof (cases "hd left \<le> hd right")
      case le: True
      with True "1.prems" have "merge_loop_547 (tl left) right (merged @ [hd left]) = (l, r, m)"
        by (simp add: merge_loop_547.simps)
      from "1.IH"(1) [OF True le this] le show ?thesis
        by (simp add: lr)
    next
      case gt: False
      with True "1.prems" have "merge_loop_547 left (tl right) (merged @ [hd right]) = (l, r, m)"
        by (simp add: merge_loop_547.simps)
      from "1.IH"(2) [OF True gt this] gt show ?thesis
        by (simp add: lr)
    qed
  qed
qed

lemma merge_547_eq: "merge_547 left right = merge_lists left right"
proof -
  obtain l r m where res: "merge_loop_547 left right [] = (l, r, m)"
    by (cases "merge_loop_547 left right []") auto
  from merge_loop_547_eq [OF res] show ?thesis
    by (simp add: merge_547_def res)
qed

text \<open>
  Claim C10. The index-based merge sort of python\_10\_feb\_246.py and the pop-based merge
  sort of python\_18\_feb\_547.py return the same sequence on every finite list, whatever
  the comparison \<open>\<le>\<close> of the elements is.
\<close>

theorem merge_sort_246_eq_547: "merge_sort_246 arr = merge_sort_547 arr"
proof (induction arr rule: merge_sort_246.induct)
  case (1 arr)
  show ?case
  proof (cases "length arr \<le> 1")
    case True
    then show ?thesis
      by (simp add: merge_sort_246.simps [of arr] merge_sort_547.simps [of arr])
  next
    case False
    then have "merge_sort_246 (take (length arr div 2) arr) = merge_sort_547 (take (length arr div 2) arr)"
      and "merge_sort_246 (drop (length arr div 2) arr) = merge_sort_547 (drop (length arr div 2) arr)"
      using "1.IH" by simp_all
    with False show ?thesis
      by (simp add: merge_sort_246.simps [of arr] merge_sort_547.simps [of arr]
          merge_246_eq merge_547_eq Let_def)
  qed
qed

subsection \<open>Merge sort on linearly ordered values\<close>

lemma set_merge_lists: "set (merge_lists xs ys) = set xs \<union> set ys"
  by (induction xs ys rule: merge_lists.induct) auto

lemma sorted_merge_lists:
  fixes xs :: "'a::linorder list"
  shows "sorted xs \<Longrightarrow> sorted ys \<Longrightarrow> sorted (merge_lists xs ys)"
  by (induction xs ys rule: merge_lists.induct) (auto simp: set_merge_lists)

lemma merge_lists_sorted_append:
  fixes xs :: "'a::linorder list"
  shows "sorted (xs @ ys) \<Longrightarrow> merge_lists xs ys = xs @ ys"
proof (induction xs)
  case Nil
  then show ?case by simp
next
  case (Cons x xs)
  then have IH: "merge_lists xs ys = xs @ ys" by simp
  show ?case
  proof (cases ys)
    case Nil
    then show ?thesis by simp
  next
    case (Cons y ys')
    with Cons.prems have "x \<le> y" by simp
    with IH Cons show ?thesis by simp
  qed
qed

lemma sorted_merge_sort_246:
  fixes arr :: "'a::linorder list"
  shows "sorted (merge_sort_246 arr)"
proof (induction arr rule: merge_sort_246.induct)
  case (1 arr)
  show ?case
  proof (cases "length arr \<le> 1")
    case True
    then have "sorted arr" by (cases arr) auto
    with True show ?thesis by (simp add: merge_sort_246.simps [of arr])
  next
    case False
    then have "sorted (merge_sort_246 (take (length arr div 2) arr))"
      and "sorted (merge_sort_246 (drop (length arr div 2) arr))"
      using "1.IH" by simp_all
    with False show ?thesis
      by (simp add: merge_sort_246.simps [of arr] merge_246_eq Let_def sorted_merge_lists)
  qed
qed

lemma merge_sort_246_sorted_id:
  fixes arr :: "'a::linorder list"
  shows "sorted arr \<Longrightarrow> merge_sort_246 arr = arr"
proof (induction arr rule: merge_sort_246.induct)
  case (1 arr)
  show ?case
  proof (cases "length arr \<le> 1")
    case True
    then show ?thesis by (simp add: merge_sort_246.simps [of arr])
  next
    case False
    let ?mid = "length arr div 2"
    have split: "take ?mid arr @ drop ?mid arr = arr" by simp
    from "1.prems" have st: "sorted (take ?mid arr)" and sd: "sorted (drop ?mid arr)"
      by (simp_all add: sorted_wrt_take sorted_wrt_drop)
    from False st have l: "merge_sort_246 (take ?mid arr) = take ?mid arr"
      using "1.IH"(1) by simp
    from False sd have r: "merge_sort_246 (drop ?mid arr) = drop ?mid arr"
      using "1.IH"(2) by simp
    have "merge_lists (take ?mid arr) (drop ?mid arr) = take ?mid arr @ drop ?mid arr"
      by (rule merge_lists_sorted_append) (simp add: "1.prems")
    with False l r show ?thesis
      by (simp add: merge_sort_246.simps [of arr] merge_246_eq Let_def)
  qed
qed

text \<open>
  Claim C9. \<open>merge_sort\<close> (python\_10\_feb\_246.py) is idempotent: sorting its result again
  returns the same sequence; applied to an already sorted sequence, or to the empty one,
  it returns the sequence unchanged.
\<close>

theorem merge_sort_246_idempotent:
  fixes xs :: "'a::linorder list"
  shows "merge_sort_246 (merge_sort_246 xs) = merge_sort_246 xs
       \<and> (sorted xs \<longrightarrow> merge_sort_246 xs = xs)
       \<and> merge_sort_246 ([] :: 'a list) = []"
proof (intro conjI impI)
  show "merge_sort_246 (merge_sort_246 xs) = merge_sort_246 xs"
    by (rule merge_sort_246_sorted_id) (rule sorted_merge_sort_246)
  show "merge_sort_246 xs = xs" if "sorted xs"
    using that by (rule merge_sort_246_sorted_id)
  show "merge_sort_246 ([] :: 'a list) = []"
    by (simp add: merge_sort_246.simps)
qed

theorem merge_sort_246_idempotent_witness:
  "sorted [11, 12, 22 :: int] \<and> merge_sort_246 [11, 12, 22 :: int] = [11, 12, 22]
   \<and> merge_sort_246 (merge_sort_246 [11, 12, 22 :: int]) = merge_sort_246 [11, 12, 22]"
  using merge_sort_246_idempotent [of "[11, 12, 22 :: int]"] by simp

section \<open>Dijkstra's shortest paths (python\_16\_feb\_264.py)\<close>

text \<open>
  The graph is a dictionary from a node to a dictionary from a neighbour to a weight;
  iteration follows insertion order, so both are association lists. \<open>distances\<close> is a
  dictionary that is only read and written by key: a map.

  \<open>dijkstra\<close> subscripts and returns the name \<open>previous\<close> without ever assigning it, so the
  name is looked up among the module's globals. The model takes the global binding as its
  first argument: \<open>None\<close> when the name is unbound (as it is when the file runs: its only
  assignment to \<open>previous\<close> is the one that receives the result of \<open>dijkstra\<close>), \<open>Some d\<close>
  when a caller has bound it to a dictionary \<open>d\<close>. Reading an unbound name raises
  \<open>NameError\<close>.

  \<open>pq\<close> is a \<open>heapq\<close> heap of pairs (distance, node). Of the heap only the order in which
  \<open>heappop\<close> returns the pairs is observed: the least pair first, pairs compared
  lexicographically. The model keeps the pairs in a list and \<open>heappop\<close> removes the least.

  The \<open>while\<close> loop need not end (a cycle of negative weight is relaxed forever), so the
  loop is a partial function; \<open>None\<close> is a run that never returns.
\<close>

type_synonym node = string
type_synonym graph = "(node \<times> (node \<times> int) list) list"
type_synonym heap = "(int \<times> node) list"

definition maxsize :: int where
  "maxsize = 9223372036854775807"

definition heappop :: "heap \<Rightarrow> (int \<times> node) \<times> heap" where
  "heappop pq = (let m = Min (set pq) in (m, remove1 m pq))"

definition heappush :: "heap \<Rightarrow> int \<times> node \<Rightarrow> heap" where
  "heappush pq item = pq @ [item]"

text \<open>The body of \<open>for neighbor, weight in graph[current_node].items()\<close>, item by item.\<close>

fun relax_edges ::
  "(node \<times> int) list \<Rightarrow> int \<Rightarrow> node \<Rightarrow>
   (node \<rightharpoonup> int) \<times> (node \<rightharpoonup> node) option \<times> heap \<Rightarrow>
   error + (node \<rightharpoonup> int) \<times> (node \<rightharpoonup> node) option \<times> heap" where
  "relax_edges [] current_distance current_node st = Inr st"
| "relax_edges ((neighbor, weight) # items) current_distance current_node (distances, previous, pq) =
     (let distance = current_distance + weight in
      case distances neighbor of
        None \<Rightarrow> Inl KeyError
      | Some dn \<Rightarrow>
          if distance < dn then
            (case previous of
               None \<Rightarrow> Inl NameError
             | Some prev \<Rightarrow>
                 relax_edges items current_distance current_node
                   (distances(neighbor \<mapsto> distance), Some (prev(neighbor \<mapsto> current_node)),
                    heappush pq (distance, neighbor)))
          else relax_edges items current_distance current_node (distances, previous, pq))"

partial_function (option) dijkstra_loop ::
  "graph \<Rightarrow> (node \<rightharpoonup> int) \<Rightarrow> (node \<rightharpoonup> node) option \<Rightarrow> heap \<Rightarrow>
   (error + (node \<rightharpoonup> int) \<times> (node \<rightharpoonup> node)) option" where
  "dijkstra_loop graph distances previous pq =
     (if length pq > 0 then
        (case heappop pq of
           ((current_distance, current_node), pq') \<Rightarrow>
             (case distances current_node of
                None \<Rightarrow> Some (Inl KeyError)
              | Some d \<Rightarrow>
                  if current_distance > d then dijkstra_loop graph distances previous pq'
                  else
                    (case map_of graph current_node of
                       None \<Rightarrow> Some (Inl KeyError)
                     | Some items \<Rightarrow>
                         (case relax_edges items current_distance current_node
                                 (distances, previous, pq') of
                            Inl e \<Rightarrow> Some (Inl e)
                          | Inr (distances', previous', pq'') \<Rightarrow>
                              dijkstra_loop graph distances' previous' pq''))))
      else
        (case previous of
           None \<Rightarrow> Some (Inl NameError)
         | Some prev \<Rightarrow> Some (Inr (distances, prev))))"

declare dijkstra_loop.simps [code]

definition dijkstra ::
  "(node \<rightharpoonup> node) option \<Rightarrow> graph \<Rightarrow> node \<Rightarrow>
   (error + (node \<rightharpoonup> int) \<times> (node \<rightharpoonup> node)) option" where
  "dijkstra previous graph start =
     (let distances = map_of (map (\<lambda>node. (node, maxsize)) (map fst graph));
          distances = distances(start \<mapsto> 0);
          pq = [(0, start)]
      in dijkstra_loop graph distances previous pq)"

text \<open>The graph of the file's example and of the specification.\<close>

definition example_graph :: graph where
  "example_graph =
     [(''A'', [(''B'', 1), (''C'', 3)]),
      (''B'', [(''A'', 1), (''C'', 2), (''D'', 4)]),
      (''C'', [(''A'', 3), (''B'', 2), (''D'', 5)]),
      (''D'', [(''B'', 4), (''C'', 5)])]"

text \<open>
  With \<open>previous\<close> unbound no call returns normally, whatever the graph: a relaxation
  raises \<open>NameError\<close>, and so does the final \<open>return distances, previous\<close>.
\<close>

lemma relax_edges_unbound:
  "relax_edges items cd cn (distances, None, pq) = Inr st \<Longrightarrow> st = (distances, None, pq)"
  by (induction items) (auto split: option.splits if_splits simp: Let_def)

lemma dijkstra_loop_unbound:
  assumes "dijkstra_loop graph distances previous pq = Some r"
  shows "previous = None \<longrightarrow> (\<exists>e. r = Inl e)"
proof (rule dijkstra_loop.raw_induct
    [where P = "\<lambda>graph distances previous pq r. previous = None \<longrightarrow> (\<exists>e. r = Inl e)", OF _ assms],
    goal_cases)
  case (1 loop graph distances previous pq r)
  show ?case
  proof
    assume un: "previous = None"
    show "\<exists>e. r = Inl e"
      using 1 un
      by (auto split: if_splits prod.splits option.splits sum.splits dest!: relax_edges_unbound)
  qed
qed

lemma dijkstra_unbound_never_returns:
  "dijkstra None graph start \<noteq> Some (Inr res)"
  using dijkstra_loop_unbound unfolding dijkstra_def Let_def by blast

text \<open>
  Had a caller bound \<open>previous\<close> to an empty dictionary, the same loop would return the
  distances and predecessors of the example.
\<close>

lemma dijkstra_example_bound:
  "\<exists>d p. dijkstra (Some Map.empty) example_graph ''A'' = Some (Inr (d, p))
     \<and> d ''A'' = Some 0 \<and> d ''B'' = Some 1 \<and> d ''C'' = Some 3 \<and> d ''D'' = Some 5
     \<and> p ''B'' = Some ''A'' \<and> p ''C'' = Some ''A'' \<and> p ''D'' = Some ''B'' \<and> p ''A'' = None"
  by (simp add: dijkstra_def example_graph_def dijkstra_loop.simps heappop_def heappush_def
      maxsize_def less_eq_prod_def less_prod_def)

text \<open>
  Claim C1 asks that \<open>dijkstra\<close> on the example graph from A returns the distances
  A:0, B:1, C:3, D:5 and a predecessor mapping. With \<open>previous\<close> unbound, the first
  relaxation (the edge from A to B) raises \<open>NameError\<close>, and nothing is returned.
\<close>

theorem dijkstra_example_NameError:
  "dijkstra None example_graph ''A'' = Some (Inl NameError)"
  by (simp add: dijkstra_def example_graph_def dijkstra_loop.simps heappop_def maxsize_def)

section \<open>Segment tree for maxima (python\_12\_feb\_910.py)\<close>

text \<open>
  A \<open>SegmentTree\<close> object has one attribute, the list \<open>self.tree\<close>; the model passes that
  list. The array holds integers. \<open>query_helper\<close> returns an element of the tree or
  \<open>float('-inf')\<close>, so its results are integers extended by minus infinity;
  \<open>max(a, b)\<close> returns \<open>b\<close> when \<open>b > a\<close> and \<open>a\<close> otherwise.

  \<open>build_tree\<close> recurses without end when \<open>start > end\<close> (the empty array), so it is a
  partial function: \<open>None\<close> is a call that never returns (CPython stops it with
  \<open>RecursionError\<close>).
\<close>

datatype number = Num int | NegInf

fun number_less :: "number \<Rightarrow> number \<Rightarrow> bool" where
  "number_less NegInf (Num b) = True"
| "number_less (Num a) (Num b) = (a < b)"
| "number_less a NegInf = False"

definition py_max :: "number \<Rightarrow> number \<Rightarrow> number" where
  "py_max a b = (if number_less a b then b else a)"

partial_function (option) build_tree_910 ::
  "int list \<Rightarrow> int \<Rightarrow> int \<Rightarrow> int \<Rightarrow> int list \<Rightarrow> (error + int list) option" where
  "build_tree_910 arr start end index tree =
     (if start = end then
        (case getitem arr start of
           Inl e \<Rightarrow> Some (Inl e)
         | Inr v \<Rightarrow> Some (setitem tree index v))
      else
        (let mid = (start + end) div 2 in
         Option.bind (build_tree_910 arr start mid (2 * index + 1) tree) (\<lambda>r1.
           case r1 of
             Inl e \<Rightarrow> Some (Inl e)
           | Inr tree1 \<Rightarrow>
               Option.bind (build_tree_910 arr (mid + 1) end (2 * index + 2) tree1) (\<lambda>r2.
                 case r2 of
                   Inl e \<Rightarrow> Some (Inl e)
                 | Inr tree2 \<Rightarrow>
                     (case getitem tree2 (2 * index + 1) of
                        Inl e \<Rightarrow> Some (Inl e)
                      | Inr a \<Rightarrow>
                          (case getitem tree2 (2 * index + 2) of
                             Inl e \<Rightarrow> Some (Inl e)
                           | Inr b \<Rightarrow> Some (setitem tree2 index (max a b))))))))"

declare build_tree_910.simps [code]

definition SegmentTree_910 :: "int list \<Rightarrow> (error + int list) option" where
  "SegmentTree_910 arr =
     (let n = int (length arr);
          tree = replicate (nat (4 * n)) 0
      in build_tree_910 arr 0 (n - 1) 0 tree)"

function query_helper_910 ::
  "int list \<Rightarrow> int \<Rightarrow> int \<Rightarrow> int \<Rightarrow> int \<Rightarrow> int \<Rightarrow> error + number" where
  "query_helper_910 tree start end index tree_start tree_end =
     (if start > tree_end \<or> end < tree_start then Inr NegInf
      else if start \<le> tree_start \<and> end \<ge> tree_end then
        (case getitem tree index of Inl e \<Rightarrow> Inl e | Inr v \<Rightarrow> Inr (Num v))
      else
        (let mid = (tree_start + tree_end) div 2 in
         case query_helper_910 tree start (min end mid) (2 * index + 1) tree_start mid of
           Inl e \<Rightarrow> Inl e
         | Inr left_max \<Rightarrow>
             (case query_helper_910 tree (max start (mid + 1)) end (2 * index + 2) (mid + 1) tree_end of
                Inl e \<Rightarrow> Inl e
              | Inr right_max \<Rightarrow> Inr (py_max left_max right_max))))"
  by pat_completeness auto
termination
  by (relation "measure (\<lambda>(tree, start, end, index, tree_start, tree_end).
        nat (tree_end - tree_start))") auto

declare query_helper_910.simps [simp del]

definition query_910 :: "int list \<Rightarrow> int \<Rightarrow> int \<Rightarrow> error + number" where
  "query_910 tree start end =
     (let n = int (length tree) div 2 in query_helper_910 tree start end 0 0 (n - 1))"

section \<open>Segment tree for sums (python\_13\_feb\_250.py)\<close>

text \<open>
  The file ends inside \<open>update\<close>; \<open>__init__\<close>, \<open>build_tree\<close> and \<open>query\<close> are complete.
  \<open>build_tree\<close> returns only when \<open>start > end\<close>: on a one-element segment it calls
  itself on the same segment (\<open>mid = start\<close>), so it is a partial function, and so is
  \<open>query\<close>, which can descend into a segment it does not shrink.
\<close>

partial_function (option) build_tree_250 ::
  "int list \<Rightarrow> int \<Rightarrow> int \<Rightarrow> int \<Rightarrow> int list \<Rightarrow> (error + int list) option" where
  "build_tree_250 arr node start end tree =
     (if start > end then Some (Inr tree)
      else
        (let mid = (start + end) div 2 in
         Option.bind (build_tree_250 arr (2 * node + 1) start mid tree) (\<lambda>r1.
           case r1 of
             Inl e \<Rightarrow> Some (Inl e)
           | Inr tree1 \<Rightarrow>
               Option.bind (build_tree_250 arr (2 * node + 2) (mid + 1) end tree1) (\<lambda>r2.
                 case r2 of
                   Inl e \<Rightarrow> Some (Inl e)
                 | Inr tree2 \<Rightarrow>
                     (if start = end then
                        (case getitem arr mid of
                           Inl e \<Rightarrow> Some (Inl e)
                         | Inr v \<Rightarrow> Some (setitem tree2 node v))
                      else
                        (case getitem tree2 (2 * node + 1) of
                           Inl e \<Rightarrow> Some (Inl e)
                         | Inr a \<Rightarrow>
                             (case getitem tree2 (2 * node + 2) of
                                Inl e \<Rightarrow> Some (Inl e)
                              | Inr b \<Rightarrow> Some (setitem tree2 node (a + b)))))))))"

declare build_tree_250.simps [code]

definition SegmentTree_250 :: "int list \<Rightarrow> (error + int list) option" where
  "SegmentTree_250 arr =
     (let n = int (length arr);
          tree = replicate (nat (4 * n)) 0
      in build_tree_250 arr 0 0 (n - 1) tree)"

partial_function (option) query_250 ::
  "int list \<Rightarrow> int \<Rightarrow> int \<Rightarrow> int \<Rightarrow> int \<Rightarrow> int \<Rightarrow> (error + int) option" where
  "query_250 tree node start end left right =
     (if start > end \<or> left > right then Some (Inr 0)
      else
        (let mid = (start + end) div 2 in
         if left \<le> start \<and> end \<le> right then Some (getitem tree node)
         else if left \<le> mid then query_250 tree (2 * node + 1) start mid left right
         else query_250 tree (2 * node + 2) (mid + 1) end left right))"

declare query_250.simps [code]

section \<open>What the segment trees answer\<close>

lemma build_tree_250_returns:
  assumes "build_tree_250 arr node start end tree = Some r"
  shows "start > end"
proof (rule build_tree_250.raw_induct
    [where P = "\<lambda>arr node start end tree r. start > end", OF _ assms], goal_cases)
  case (1 build arr node lo hi tree r)
  show ?case
  proof (rule ccontr)
    assume "\<not> hi < lo"
    then have le: "lo \<le> hi" by simp
    with "1"(2) obtain r1 where "build arr (2 * node + 1) lo ((lo + hi) div 2) tree = Some r1"
      by (auto simp: Let_def bind_eq_Some_conv)
    from "1"(1) [OF this] have "(lo + hi) div 2 < lo" .
    with le show False by linarith
  qed
qed

text \<open>The sum tree cannot be constructed from any non-empty array: \<open>__init__\<close> never returns.\<close>

lemma SegmentTree_250_never_returns:
  assumes "arr \<noteq> []"
  shows "SegmentTree_250 arr = None"
proof (cases "SegmentTree_250 arr")
  case None
  then show ?thesis .
next
  case (Some r)
  then have "build_tree_250 arr 0 0 (int (length arr) - 1) (replicate (nat (4 * int (length arr))) 0) = Some r"
    by (simp add: SegmentTree_250_def Let_def)
  then have "int (length arr) - 1 < 0" by (rule build_tree_250_returns)
  with assms show ?thesis by (cases arr) auto
qed

text \<open>
  Claim C2 asks that a query over the full range \<open>[0, n-1]\<close> returns the aggregate of the
  whole array. For the array of the file's example, \<open>[3, -5, 0, -7, 10]\<close>, the maximum
  tree is built, and \<open>query(0, 4)\<close> returns 3 while the maximum is 10: \<open>query\<close> takes
  \<open>len(self.tree) // 2 = 2 * n\<close> for the number of leaves, so the root it descends from
  stands for \<open>[0, 2 * n - 1]\<close> and the answer is the node of the left half of the array.
\<close>

theorem query_910_full_range_wrong:
  "\<exists>tree. SegmentTree_910 [3, -5, 0, -7, 10] = Some (Inr tree)
     \<and> query_910 tree 0 4 = Inr (Num 3)
     \<and> Max (set [3, -5, 0, -7, 10 :: int]) = 10"
proof -
  have "SegmentTree_910 [3, -5, 0, -7, 10] =
        Some (Inr [10, 3, 10, 3, 0, -7, 10, 3, -5, 0, 0, 0, 0, 0, 0, 0, 0, 0, 0, 0])"
    by code_simp
  moreover have "query_910 [10, 3, 10, 3, 0, -7, 10, 3, -5, 0, 0, 0, 0, 0, 0, 0, 0, 0, 0, 0] 0 4
        = Inr (Num 3)"
    by code_simp
  moreover have "Max (set [3, -5, 0, -7, 10 :: int]) = 10"
    by simp
  ultimately show ?thesis by blast
qed

text \<open>
  Claim C3 asks that a query over \<open>[i, i]\<close> returns the value of the array at \<open>i\<close>. For the
  same array and \<open>i = 0\<close> the query returns 0, not 3: it ends in node 15 of the tree,
  which \<open>build_tree\<close> never wrote.
\<close>

theorem query_910_point_wrong:
  "\<exists>tree. SegmentTree_910 [3, -5, 0, -7, 10] = Some (Inr tree)
     \<and> query_910 tree 0 0 = Inr (Num 0)
     \<and> [3, -5, 0, -7, 10 :: int] ! 0 = 3"
proof -
  have "SegmentTree_910 [3, -5, 0, -7, 10] =
        Some (Inr [10, 3, 10, 3, 0, -7, 10, 3, -5, 0, 0, 0, 0, 0, 0, 0, 0, 0, 0, 0])"
    by code_simp
  moreover have "query_910 [10, 3, 10, 3, 0, -7, 10, 3, -5, 0, 0, 0, 0, 0, 0, 0, 0, 0, 0, 0] 0 0
        = Inr (Num 0)"
    by code_simp
  ultimately show ?thesis by simp
qed

section \<open>Breadth-first traversal (python\_09\_feb\_788.py)\<close>

text \<open>
  The graph is the list of adjacency lists that \<open>create_graph\<close> builds: node \<open>i\<close> is the
  index of its adjacency list, and \<open>graph[node]\<close> is a list subscript. \<open>visited\<close> is a set,
  \<open>queue\<close> a deque used first-in first-out. \<open>bfs_traversal\<close> returns nothing; what it
  produces is the sequence of nodes it prints. The model returns that sequence, and the
  exception that ended the run if there is one.
\<close>

text \<open>The \<open>for neighbor in graph[node]\<close> loop.\<close>

fun enqueue_unvisited :: "int list \<Rightarrow> int list \<times> int set \<Rightarrow> int list \<times> int set" where
  "enqueue_unvisited [] (queue, visited) = (queue, visited)"
| "enqueue_unvisited (neighbor # rest) (queue, visited) =
     (if neighbor \<notin> visited
      then enqueue_unvisited rest (queue @ [neighbor], insert neighbor visited)
      else enqueue_unvisited rest (queue, visited))"

lemma enqueue_unvisited_measure:
  "enqueue_unvisited ns (q, v) = (q', v') \<Longrightarrow> set ns \<subseteq> S \<Longrightarrow> finite S \<Longrightarrow>
   card (S - v') < card (S - v) \<or> (v' = v \<and> q' = q)"
proof (induction ns arbitrary: q v)
  case Nil
  then show ?case by simp
next
  case (Cons n ns)
  show ?case
  proof (cases "n \<in> v")
    case True
    with Cons.prems have "enqueue_unvisited ns (q, v) = (q', v')" by simp
    from Cons.IH [OF this] Cons.prems show ?thesis by simp
  next
    case False
    with Cons.prems have "enqueue_unvisited ns (q @ [n], insert n v) = (q', v')" by simp
    from Cons.IH [OF this] Cons.prems
    have "card (S - v') \<le> card (S - insert n v)" by auto
    moreover have "card (S - insert n v) < card (S - v)"
      using False Cons.prems by (intro psubset_card_mono) auto
    ultimately show ?thesis by simp
  qed
qed

function bfs_loop :: "int list list \<Rightarrow> int list \<Rightarrow> int set \<Rightarrow> int list \<Rightarrow> int list \<times> error option" where
  "bfs_loop graph queue visited printed =
     (case queue of
        [] \<Rightarrow> (printed, None)
      | node # queue' \<Rightarrow>
          (case getitem graph node of
             Inl e \<Rightarrow> (printed @ [node], Some e)
           | Inr neighbors \<Rightarrow>
               (case enqueue_unvisited neighbors (queue', visited) of
                  (queue'', visited') \<Rightarrow> bfs_loop graph queue'' visited' (printed @ [node]))))"
  by pat_completeness auto
termination
proof (relation "measures [\<lambda>(graph, queue, visited, printed). card (set (concat graph) - visited),
                            \<lambda>(graph, queue, visited, printed). length queue]", goal_cases)
  case 1
  show ?case by simp
next
  case (2 graph queue visited printed node queue' neighbors queue'' visited')
  from 2(2) have "neighbors \<in> set graph" by (rule getitem_in_set)
  then have sub: "set neighbors \<subseteq> set (concat graph)" by auto
  from 2(3) have "enqueue_unvisited neighbors (queue', visited) = (queue'', visited')"
    by simp
  from enqueue_unvisited_measure [OF this sub] 2(1)
  show ?case by auto
qed

declare bfs_loop.simps [simp del]

definition bfs_traversal :: "int list list \<Rightarrow> int \<Rightarrow> int list \<times> error option" where
  "bfs_traversal graph start_node = bfs_loop graph [start_node] {start_node} []"

text \<open>
  Claim C4, as amended. For every graph and every start node that is no valid subscript
  of the adjacency list (\<open>start < -len(graph)\<close> or \<open>start \<ge> len(graph)\<close>),
  \<open>bfs_traversal\<close> prints the start node and then fails with \<open>IndexError\<close>, raised by
  \<open>graph[node]\<close>.
\<close>

theorem bfs_traversal_absent_start:
  assumes "start_node < - int (length graph) \<or> int (length graph) \<le> start_node"
  shows "bfs_traversal graph start_node = ([start_node], Some IndexError)"
proof -
  from assms have "getitem graph start_node = Inl IndexError"
    by (auto simp: getitem_def py_index_def Let_def)
  then show ?thesis
    by (simp add: bfs_traversal_def bfs_loop.simps [of graph "[start_node]"])
qed

theorem bfs_traversal_absent_start_witness:
  "bfs_traversal [[1], [0]] 2 = ([2], Some IndexError)"
  using bfs_traversal_absent_start [where graph = "[[1], [0]]" and start_node = 2] by simp

text \<open>
  Claim C4 as stated fails: with start node 2 on the two-node graph \<open>[[1], [0]]\<close> the
  error is \<open>IndexError\<close>, not \<open>InvalidNodeError\<close>.
\<close>

theorem bfs_traversal_not_InvalidNodeError:
  "snd (bfs_traversal [[1], [0]] 2) = Some IndexError
   \<and> snd (bfs_traversal [[1], [0]] 2) \<noteq> Some InvalidNodeError"
  by (simp add: bfs_traversal_def bfs_loop.simps getitem_def py_index_def)

subsection \<open>Hop counts and the order of the traversal\<close>

text \<open>
  There is an edge from \<open>u\<close> to \<open>w\<close> when \<open>w\<close> is in \<open>graph[u]\<close>. A node is reachable in
  \<open>k\<close> hops when a path of \<open>k\<close> edges leads to it from the start node; its hop count is
  the least such \<open>k\<close>.
\<close>

definition edge :: "int list list \<Rightarrow> int \<Rightarrow> int \<Rightarrow> bool" where
  "edge graph u w = (case getitem graph u of Inl e \<Rightarrow> False | Inr neighbors \<Rightarrow> w \<in> set neighbors)"

inductive reach_in :: "int list list \<Rightarrow> int \<Rightarrow> nat \<Rightarrow> int \<Rightarrow> bool"
  for graph :: "int list list" and start_node :: int where
  reach_start: "reach_in graph start_node 0 start_node"
| reach_step: "reach_in graph start_node k u \<Longrightarrow> edge graph u w \<Longrightarrow> reach_in graph start_node (Suc k) w"

definition hop_count :: "int list list \<Rightarrow> int \<Rightarrow> int \<Rightarrow> nat" where
  "hop_count graph start_node v = (LEAST k. reach_in graph start_node k v)"

definition valid_node :: "int list list \<Rightarrow> int \<Rightarrow> bool" where
  "valid_node graph v = (0 \<le> v \<and> v < int (length graph))"

definition wf_graph :: "int list list \<Rightarrow> bool" where
  "wf_graph graph = (\<forall>neighbors \<in> set graph. \<forall>v \<in> set neighbors. valid_node graph v)"

lemma getitem_valid: "valid_node g u \<Longrightarrow> getitem g u = Inr (g ! nat u)"
  by (simp add: valid_node_def getitem_def py_index_def)

lemma edge_iff: "getitem g u = Inr ns \<Longrightarrow> edge g u w \<longleftrightarrow> w \<in> set ns"
  by (simp add: edge_def)

lemma reach_in_zero: "reach_in g s 0 v \<Longrightarrow> v = s"
  by (erule reach_in.cases) simp_all

lemma hop_count_le: "reach_in g s k v \<Longrightarrow> hop_count g s v \<le> k"
  unfolding hop_count_def by (rule Least_le)

lemma reach_in_hop_count: "reach_in g s k v \<Longrightarrow> reach_in g s (hop_count g s v) v"
  unfolding hop_count_def by (rule LeastI)

lemma hop_count_start: "hop_count g s s = 0"
  using hop_count_le [OF reach_start, of g s] by simp

lemma hop_count_zero: "reach_in g s k v \<Longrightarrow> hop_count g s v = 0 \<Longrightarrow> v = s"
  using reach_in_hop_count reach_in_zero by fastforce

lemma hop_count_edge:
  assumes "reach_in g s k u" and "edge g u w"
  shows "hop_count g s w \<le> hop_count g s u + 1"
proof -
  from assms(1) have "reach_in g s (hop_count g s u) u" by (rule reach_in_hop_count)
  from this assms(2) have "reach_in g s (Suc (hop_count g s u)) w" by (rule reach_step)
  then show ?thesis using hop_count_le by fastforce
qed

lemma hop_count_pred:
  assumes "reach_in g s k w" and "w \<noteq> s"
  shows "\<exists>p j. reach_in g s j p \<and> edge g p w \<and> hop_count g s w = hop_count g s p + 1"
proof -
  from assms(1) have r: "reach_in g s (hop_count g s w) w" by (rule reach_in_hop_count)
  from r assms(2) obtain j p where j: "hop_count g s w = Suc j"
    and p: "reach_in g s j p" and e: "edge g p w"
    by (cases rule: reach_in.cases) auto
  from p have "hop_count g s p \<le> j" by (rule hop_count_le)
  moreover from hop_count_edge [OF p e] j have "j \<le> hop_count g s p" by simp
  ultimately have "hop_count g s w = hop_count g s p + 1" using j by simp
  with p e show ?thesis by blast
qed

lemma enqueue_unvisited_result:
  "enqueue_unvisited ns (q, v) = (q', v') \<Longrightarrow>
   \<exists>news. q' = q @ news \<and> set news = set ns - v \<and> v' = v \<union> set ns"
proof (induction ns arbitrary: q v)
  case Nil
  then show ?case by simp
next
  case (Cons n ns)
  show ?case
  proof (cases "n \<in> v")
    case True
    with Cons.prems have "enqueue_unvisited ns (q, v) = (q', v')" by simp
    from Cons.IH [OF this] obtain news where
      "q' = q @ news" "set news = set ns - v" "v' = v \<union> set ns" by blast
    with True show ?thesis by auto
  next
    case False
    with Cons.prems have "enqueue_unvisited ns (q @ [n], insert n v) = (q', v')" by simp
    from Cons.IH [OF this] obtain news where
      n: "q' = (q @ [n]) @ news" "set news = set ns - insert n v" "v' = insert n v \<union> set ns" by blast
    have "q' = q @ (n # news)" using n(1) by simp
    moreover have "set (n # news) = set (n # ns) - v" using n(2) False by auto
    moreover have "v' = v \<union> set (n # ns)" using n(3) by auto
    ultimately show ?thesis by blast
  qed
qed


definition bfs_inv :: "int list list \<Rightarrow> int \<Rightarrow> int list \<Rightarrow> int set \<Rightarrow> int list \<Rightarrow> bool" where
  "bfs_inv g s queue visited printed \<longleftrightarrow>
     visited = set printed \<union> set queue
   \<and> sorted (map (hop_count g s) (printed @ queue))
   \<and> (\<forall>v \<in> visited. \<exists>k. reach_in g s k v)
   \<and> (\<forall>y \<in> set queue. hop_count g s y \<le> hop_count g s (hd queue) + 1)
   \<and> (\<forall>u \<in> set printed. \<forall>w. edge g u w \<longrightarrow> w \<in> visited)
   \<and> (queue \<noteq> [] \<longrightarrow>
        (\<forall>v k. reach_in g s k v \<and> hop_count g s v \<le> hop_count g s (hd queue) \<longrightarrow> v \<in> visited))"

lemma bfs_inv_init: "bfs_inv g s [s] {s} []"
  unfolding bfs_inv_def
  by (auto simp: hop_count_start intro: reach_start dest: hop_count_zero)

lemma sorted_map_const: "(\<forall>x \<in> set xs. f x = c) \<Longrightarrow> sorted (map f xs)"
  by (induction xs) auto

lemma bfs_inv_step:
  assumes inv: "bfs_inv g s (u # rest) visited printed"
    and get: "getitem g u = Inr ns"
    and enq: "enqueue_unvisited ns (rest, visited) = (q', v')"
  shows "bfs_inv g s q' v' (printed @ [u])"
proof -
  let ?d = "hop_count g s"
  note i = inv [unfolded bfs_inv_def, simplified list.sel]
  from i have a1: "visited = set printed \<union> set (u # rest)" by blast
  from i have a2: "sorted (map ?d (printed @ u # rest))" by blast
  from i have a3: "\<forall>v \<in> visited. \<exists>k. reach_in g s k v" by blast
  from i have a4: "\<forall>y \<in> set (u # rest). ?d y \<le> ?d u + 1" by blast
  from i have a5: "\<forall>x \<in> set printed. \<forall>w. edge g x w \<longrightarrow> w \<in> visited" by blast
  from i have "u # rest \<noteq> [] \<longrightarrow>
      (\<forall>v k. reach_in g s k v \<and> ?d v \<le> ?d u \<longrightarrow> v \<in> visited)" by blast
  then have a6: "\<forall>v k. reach_in g s k v \<and> ?d v \<le> ?d u \<longrightarrow> v \<in> visited" by simp
  from enqueue_unvisited_result [OF enq] obtain news where
    q': "q' = rest @ news" and news: "set news = set ns - visited" and v': "v' = visited \<union> set ns"
    by blast
  from a1 a3 obtain ku where ru: "reach_in g s ku u" by auto
  have e_u: "edge g u w \<longleftrightarrow> w \<in> set ns" for w
    using get by (rule edge_iff)
  have r_ns: "\<exists>k. reach_in g s k w" if "w \<in> set ns" for w
    using reach_step [OF ru] e_u that by blast
  have f1: "?d w = ?d u + 1" if "w \<in> set news" for w
  proof -
    from that news have w: "w \<in> set ns" "w \<notin> visited" by auto
    from w(1) have "edge g u w" by (simp add: e_u)
    from hop_count_edge [OF ru this] have "?d w \<le> ?d u + 1" .
    moreover have "\<not> ?d w \<le> ?d u"
      using a6 r_ns [OF w(1)] w(2) by blast
    ultimately show ?thesis by simp
  qed
  from a2 have sp: "\<forall>x \<in> set printed. ?d x \<le> ?d u"
    and f3: "\<forall>x \<in> set rest. ?d u \<le> ?d x"
    and sr: "sorted (map ?d rest)"
    by (auto simp: sorted_append)
  have f2: "?d x \<le> ?d u + 1" if "x \<in> set (printed @ u # rest)" for x
    using that sp a4 by fastforce
  have f4: "?d u \<le> ?d y \<and> ?d y \<le> ?d u + 1" if "y \<in> set q'" for y
    using that q' f3 a4 f1 by auto
  have g1: "v' = set (printed @ [u]) \<union> set q'"
    using v' a1 q' news by auto
  have g2: "sorted (map ?d ((printed @ [u]) @ q'))"
  proof -
    have "sorted (map ?d news)" using f1 by (intro sorted_map_const [where c = "?d u + 1"]) simp
    moreover have "\<forall>x \<in> set (printed @ u # rest). \<forall>y \<in> set news. ?d x \<le> ?d y"
      using f1 f2 by simp
    ultimately have "sorted (map ?d (printed @ u # rest) @ map ?d news)"
      using a2 by (simp only: sorted_append set_map) auto
    then show ?thesis by (simp add: q')
  qed
  have g3: "\<forall>v \<in> v'. \<exists>k. reach_in g s k v"
    using v' a3 r_ns by auto
  have g4: "\<forall>y \<in> set q'. ?d y \<le> ?d (hd q') + 1"
  proof
    fix y assume y: "y \<in> set q'"
    then have "q' \<noteq> []" by auto
    then have "hd q' \<in> set q'" by simp
    with f4 have "?d u \<le> ?d (hd q')" by blast
    with f4 [OF y] show "?d y \<le> ?d (hd q') + 1" by simp
  qed
  have g5: "\<forall>x \<in> set (printed @ [u]). \<forall>w. edge g x w \<longrightarrow> w \<in> v'"
    using a5 e_u v' by auto
  have g6: "v \<in> v'" if ne: "q' \<noteq> []" and rv: "reach_in g s k v" and dv: "?d v \<le> ?d (hd q')" for v k
  proof (cases "?d v \<le> ?d u")
    case True
    with a6 rv have "v \<in> visited" by blast
    with v' show ?thesis by simp
  next
    case False
    from ne have hq: "hd q' \<in> set q'" by simp
    with f4 have "?d (hd q') \<le> ?d u + 1" by blast
    with False dv have dv': "?d v = ?d u + 1" and dh: "?d (hd q') = ?d u + 1" by simp_all
    then have "v \<noteq> s" using hop_count_start [of g s] by auto
    from hop_count_pred [OF rv this] obtain p j where
      rp: "reach_in g s j p" and ep: "edge g p v" and dp: "?d v = ?d p + 1" by blast
    from dp dv' have dpu: "?d p = ?d u" by simp
    with a6 rp have "p \<in> visited" by auto
    with a1 consider "p \<in> set printed" | "p = u" | "p \<in> set rest" by auto
    then show ?thesis
    proof cases
      case 1
      with a5 ep have "v \<in> visited" by blast
      with v' show ?thesis by simp
    next
      case 2
      with ep e_u v' show ?thesis by simp
    next
      case 3
      then obtain r rs where rest: "rest = r # rs" by (cases rest) auto
      with q' have "hd q' = r" by simp
      moreover from sr 3 rest have "?d r \<le> ?d p" by auto
      ultimately show ?thesis using dh dpu by simp
    qed
  qed
  show ?thesis
    unfolding bfs_inv_def using g1 g2 g3 g4 g5 g6 by blast
qed


lemma reach_in_valid:
  assumes "wf_graph g" and "valid_node g s"
  shows "reach_in g s k v \<Longrightarrow> valid_node g v"
proof (induction rule: reach_in.induct)
  case reach_start
  show ?case by (rule assms(2))
next
  case (reach_step k u w)
  from reach_step.hyps(2) obtain ns where "getitem g u = Inr ns" and w: "w \<in> set ns"
    by (auto simp: edge_def split: sum.splits)
  then have "ns \<in> set g" by (simp add: getitem_in_set)
  with assms(1) w show ?case by (simp add: wf_graph_def)
qed

lemma bfs_loop_sorted:
  "wf_graph g \<Longrightarrow> valid_node g s \<Longrightarrow> bfs_inv g s queue visited printed \<Longrightarrow>
   \<exists>out. bfs_loop g queue visited printed = (out, None)
        \<and> sorted (map (hop_count g s) out)
        \<and> (\<forall>v \<in> set out. \<exists>k. reach_in g s k v)"
proof (induction g queue visited printed rule: bfs_loop.induct)
  case (1 graph queue visited printed)
  note wf = "1.prems"(1) and vs = "1.prems"(2) and inv = "1.prems"(3)
  show ?case
  proof (cases queue)
    case Nil
    with inv have "sorted (map (hop_count graph s) printed)"
      and "\<forall>v \<in> set printed. \<exists>k. reach_in graph s k v"
      by (simp_all add: bfs_inv_def)
    with Nil show ?thesis by (simp add: bfs_loop.simps [of graph "[]"])
  next
    case (Cons u rest)
    with inv have "\<exists>k. reach_in graph s k u" by (simp add: bfs_inv_def)
    then have "valid_node graph u" using reach_in_valid [OF wf vs] by blast
    then have get: "getitem graph u = Inr (graph ! nat u)" by (rule getitem_valid)
    obtain q' v' where enq: "enqueue_unvisited (graph ! nat u) (rest, visited) = (q', v')"
      by (cases "enqueue_unvisited (graph ! nat u) (rest, visited)") auto
    from inv Cons have "bfs_inv graph s (u # rest) visited printed" by simp
    from bfs_inv_step [OF this get enq] have inv': "bfs_inv graph s q' v' (printed @ [u])" .
    have "bfs_loop graph queue visited printed = bfs_loop graph q' v' (printed @ [u])"
      unfolding Cons by (subst bfs_loop.simps) (simp add: get enq)
    moreover from "1.IH" [OF Cons get enq [symmetric] wf vs inv']
    have "\<exists>out. bfs_loop graph q' v' (printed @ [u]) = (out, None)
        \<and> sorted (map (hop_count graph s) out)
        \<and> (\<forall>v \<in> set out. \<exists>k. reach_in graph s k v)" .
    ultimately show ?thesis by simp
  qed
qed

text \<open>
  Claim C5, as amended. For every graph whose adjacency lists name nodes of the graph
  only, connected or not, and every start node of the graph, \<open>bfs_traversal\<close> ends
  without an error, every node it prints is reachable from the start node, and a node is
  never farther from the start node, in hops, than a node printed after it.
\<close>

theorem bfs_traversal_level_monotone:
  assumes "wf_graph graph" and "valid_node graph start_node"
  shows "\<exists>out. bfs_traversal graph start_node = (out, None)
           \<and> (\<forall>v \<in> set out. \<exists>k. reach_in graph start_node k v)
           \<and> (\<forall>i j. i < j \<and> j < length out \<longrightarrow>
                 hop_count graph start_node (out ! i) \<le> hop_count graph start_node (out ! j))"
proof -
  from bfs_loop_sorted [OF assms bfs_inv_init] obtain out where
    out: "bfs_loop graph [start_node] {start_node} [] = (out, None)"
    and s: "sorted (map (hop_count graph start_node) out)"
    and r: "\<forall>v \<in> set out. \<exists>k. reach_in graph start_node k v"
    by blast
  have "hop_count graph start_node (out ! i) \<le> hop_count graph start_node (out ! j)"
    if "i < j" "j < length out" for i j
    using sorted_nth_mono [OF s, of i j] that by simp
  with out r show ?thesis by (auto simp: bfs_traversal_def)
qed

theorem bfs_traversal_level_monotone_witness:
  "wf_graph [[1], [0, 2], [1]] \<and> valid_node [[1], [0, 2], [1]] 1
   \<and> (\<exists>out. bfs_traversal [[1], [0, 2], [1]] 1 = (out, None)
           \<and> (\<forall>v \<in> set out. \<exists>k. reach_in [[1], [0, 2], [1]] 1 k v)
           \<and> (\<forall>i j. i < j \<and> j < length out \<longrightarrow>
                 hop_count [[1], [0, 2], [1]] 1 (out ! i) \<le> hop_count [[1], [0, 2], [1]] 1 (out ! j)))"
proof -
  have wf: "wf_graph [[1], [0, 2], [1]]" by (simp add: wf_graph_def valid_node_def)
  have vs: "valid_node [[1], [0, 2], [1]] 1" by (simp add: valid_node_def)
  from bfs_traversal_level_monotone [OF wf vs] wf vs show ?thesis by blast
qed

text \<open>
  Claim C5 as stated asks for strictly fewer hops, and fails for two nodes of one level:
  from node 1 of the path 0 - 1 - 2 the traversal prints 1, 0, 2, and node 0 is as far
  from the start as node 2, which is printed after it.
\<close>

lemma hop_count_one:
  assumes "edge g s v" and "v \<noteq> s"
  shows "hop_count g s v = 1"
proof -
  have r: "reach_in g s (Suc 0) v" using reach_step [OF reach_start assms(1)] .
  then have "hop_count g s v \<le> 1" using hop_count_le by fastforce
  moreover have "hop_count g s v \<noteq> 0" using hop_count_zero [OF r] assms(2) by blast
  ultimately show ?thesis by simp
qed

theorem bfs_traversal_same_level:
  "bfs_traversal [[1], [0, 2], [1]] 1 = ([1, 0, 2], None)
   \<and> \<not> hop_count [[1], [0, 2], [1]] 1 0 < hop_count [[1], [0, 2], [1]] 1 2"
proof -
  have "bfs_traversal [[1], [0, 2], [1]] 1 = ([1, 0, 2], None)"
    by (simp add: bfs_traversal_def bfs_loop.simps getitem_def py_index_def)
  moreover have "hop_count [[1], [0, 2], [1]] 1 0 = 1"
    by (rule hop_count_one) (simp_all add: edge_def getitem_def py_index_def)
  moreover have "hop_count [[1], [0, 2], [1]] 1 2 = 1"
    by (rule hop_count_one) (simp_all add: edge_def getitem_def py_index_def)
  ultimately show ?thesis by simp
qed

section \<open>Union-find (python\_17\_feb\_683.py)\<close>

text \<open>
  A \<open>UnionFind\<close> object has one attribute, the list \<open>self.parent\<close>; the model passes that
  list. The methods \<open>find\<close> and \<open>union\<close> are \<open>UnionFind_find\<close> and \<open>UnionFind_union\<close> here
  (HOL's list library has functions of both names). \<open>find\<close> compresses the path while it returns, so it returns the root together
  with the new list. It follows parent links for as long as they lead elsewhere, which
  need not end on an arbitrary list, so it is a partial function; \<open>None\<close> is a call that
  never returns. Element ids are Python integers and every access is a list subscript:
  an id in \<open>[-n, 0)\<close> counts from the end of the list, an id outside \<open>[-n, n)\<close> raises
  \<open>IndexError\<close>.
\<close>

definition UnionFind :: "int \<Rightarrow> int list" where
  "UnionFind n = map int [0..<nat n]"

partial_function (option) UnionFind_find :: "int list \<Rightarrow> int \<Rightarrow> (error + int \<times> int list) option" where
  "UnionFind_find parent x =
     (case getitem parent x of
        Inl e \<Rightarrow> Some (Inl e)
      | Inr p \<Rightarrow>
          if p \<noteq> x then
            Option.bind (UnionFind_find parent p) (\<lambda>r.
              case r of
                Inl e \<Rightarrow> Some (Inl e)
              | Inr (root, parent1) \<Rightarrow>
                  (case setitem parent1 x root of
                     Inl e \<Rightarrow> Some (Inl e)
                   | Inr parent2 \<Rightarrow>
                       (case getitem parent2 x of
                          Inl e \<Rightarrow> Some (Inl e)
                        | Inr v \<Rightarrow> Some (Inr (v, parent2)))))
          else
            (case getitem parent x of
               Inl e \<Rightarrow> Some (Inl e)
             | Inr v \<Rightarrow> Some (Inr (v, parent))))"

declare UnionFind_find.simps [code]

definition UnionFind_union :: "int list \<Rightarrow> int \<Rightarrow> int \<Rightarrow> (error + int list) option" where
  "UnionFind_union parent x y =
     Option.bind (UnionFind_find parent x) (\<lambda>r1.
       case r1 of
         Inl e \<Rightarrow> Some (Inl e)
       | Inr (root_x, parent1) \<Rightarrow>
           Option.bind (UnionFind_find parent1 y) (\<lambda>r2.
             case r2 of
               Inl e \<Rightarrow> Some (Inl e)
             | Inr (root_y, parent2) \<Rightarrow>
                 if root_x \<noteq> root_y then
                   (case setitem parent2 root_x root_y of
                      Inl e \<Rightarrow> Some (Inl e)
                    | Inr parent3 \<Rightarrow> Some (Inr parent3))
                 else Some (Inr parent2)))"

fun unions :: "int list \<Rightarrow> (int \<times> int) list \<Rightarrow> (error + int list) option" where
  "unions parent [] = Some (Inr parent)"
| "unions parent ((x, y) # calls) =
     Option.bind (UnionFind_union parent x y) (\<lambda>r.
       case r of
         Inl e \<Rightarrow> Some (Inl e)
       | Inr parent' \<Rightarrow> unions parent' calls)"

text \<open>
  The reference for connectivity: two ids are connected by a sequence of \<open>union\<close> calls when
  a chain of unioned pairs, each taken in either direction, leads from one to the other.
\<close>

definition connected :: "(int \<times> int) list \<Rightarrow> (int \<times> int) set" where
  "connected calls = (set calls \<union> (set calls)\<inverse>)\<^sup>*"

subsection \<open>Roots of the parent forest\<close>

text \<open>
  \<open>root_of parent x r\<close>: following the parent links from the valid id \<open>x\<close> ends in the
  root \<open>r\<close>, an id that is its own parent.
\<close>

inductive root_of :: "int list \<Rightarrow> int \<Rightarrow> int \<Rightarrow> bool" for parent :: "int list" where
  root: "0 \<le> x \<Longrightarrow> x < int (length parent) \<Longrightarrow> parent ! nat x = x \<Longrightarrow> root_of parent x x"
| step: "0 \<le> x \<Longrightarrow> x < int (length parent) \<Longrightarrow> parent ! nat x \<noteq> x \<Longrightarrow>
         root_of parent (parent ! nat x) r \<Longrightarrow> root_of parent x r"

lemma root_of_valid: "root_of l x r \<Longrightarrow> 0 \<le> x \<and> x < int (length l)"
  by (erule root_of.cases) simp_all

lemma root_of_root: "root_of l x r \<Longrightarrow> 0 \<le> r \<and> r < int (length l) \<and> l ! nat r = r"
  by (induction rule: root_of.induct) simp_all

lemma root_of_self: "root_of l x r \<Longrightarrow> root_of l r r"
  using root_of_root root_of.root by blast

lemma root_of_unique: "root_of l x r \<Longrightarrow> root_of l x r' \<Longrightarrow> r = r'"
proof (induction arbitrary: r' rule: root_of.induct)
  case (root x)
  from root.prems root.hyps show ?case by (cases rule: root_of.cases) simp_all
next
  case (step x r)
  from step.prems step.hyps(1-3) have "root_of l (l ! nat x) r'"
    by (cases rule: root_of.cases) simp_all
  then show ?case by (rule step.IH)
qed

lemma getitem_valid_index: "0 \<le> x \<Longrightarrow> x < int (length l) \<Longrightarrow> getitem l x = Inr (l ! nat x)"
  by (simp add: getitem_def py_index_def)

lemma setitem_valid_index: "0 \<le> x \<Longrightarrow> x < int (length l) \<Longrightarrow> setitem l x v = Inr (l[nat x := v])"
  by (simp add: setitem_def py_index_def)

lemma nth_update_other:
  "0 \<le> x \<Longrightarrow> 0 \<le> y \<Longrightarrow> x \<noteq> y \<Longrightarrow> l[nat x := v] ! nat y = l ! nat y"
  by (simp add: eq_nat_nat_iff)

lemma nth_update_same:
  "0 \<le> x \<Longrightarrow> x < int (length l) \<Longrightarrow> l[nat x := v] ! nat x = v"
  by simp

lemma root_of_compress:
  assumes xr: "root_of l x r"
  shows "root_of l y s \<Longrightarrow> root_of (l[nat x := r]) y s"
proof (induction rule: root_of.induct)
  case (root y)
  note vx = root_of_valid [OF xr]
  have len: "y < int (length (l[nat x := r]))" using root.hyps by simp
  show ?case
  proof (cases "y = x")
    case True
    with root.hyps have "root_of l x x" using root_of.root by blast
    with xr have "r = x" by (rule root_of_unique)
    with True root.hyps have "l[nat x := r] ! nat y = y" by simp
    with root.hyps(1) len show ?thesis by (rule root_of.root)
  next
    case False
    with root.hyps vx have "l[nat x := r] ! nat y = y" by (simp add: nth_update_other)
    with root.hyps(1) len show ?thesis by (rule root_of.root)
  qed
next
  case (step y s)
  note vx = root_of_valid [OF xr]
  have len: "y < int (length (l[nat x := r]))" using step.hyps by simp
  show ?case
  proof (cases "y = x")
    case False
    with step.hyps vx have eq: "l[nat x := r] ! nat y = l ! nat y" by (simp add: nth_update_other)
    show ?thesis
    proof (rule root_of.step [OF step.hyps(1) len])
      show "l[nat x := r] ! nat y \<noteq> y" using eq step.hyps(3) by simp
      show "root_of (l[nat x := r]) (l[nat x := r] ! nat y) s" using eq step.IH by simp
    qed
  next
    case True
    from step.hyps have "root_of l y s" by (rule root_of.step)
    with True xr have sr: "s = r" using root_of_unique by blast
    from root_of_root [OF xr] have rr: "0 \<le> r" "r < int (length l)" "l ! nat r = r" by simp_all
    from step.hyps(3) True rr(3) have rx: "r \<noteq> x" by auto
    from vx have upd: "l[nat x := r] ! nat x = r" by (simp add: nth_update_same)
    from rx rr vx have "l[nat x := r] ! nat r = r" by (simp add: nth_update_other)
    moreover have "r < int (length (l[nat x := r]))" using rr by simp
    ultimately have rroot: "root_of (l[nat x := r]) r r" using rr(1) root_of.root by blast
    show ?thesis
      unfolding True sr
    proof (rule root_of.step)
      show "0 \<le> x" using vx by simp
      show "x < int (length (l[nat x := r]))" using vx by simp
      show "l[nat x := r] ! nat x \<noteq> x" using upd rx by simp
      show "root_of (l[nat x := r]) (l[nat x := r] ! nat x) r" using upd rroot by simp
    qed
  qed
qed

lemma root_of_link:
  assumes rx: "root_of l rx rx" and ry: "root_of l ry ry" and ne: "rx \<noteq> ry"
  shows "root_of l j s \<Longrightarrow> root_of (l[nat rx := ry]) j (if s = rx then ry else s)"
proof (induction rule: root_of.induct)
  case (root j)
  from root_of_root [OF rx] have x: "0 \<le> rx" "rx < int (length l)" "l ! nat rx = rx" by simp_all
  from root_of_root [OF ry] have y: "0 \<le> ry" "ry < int (length l)" "l ! nat ry = ry" by simp_all
  from x y ne have "l[nat rx := ry] ! nat ry = ry" by (simp add: nth_update_other)
  moreover have "ry < int (length (l[nat rx := ry]))" using y by simp
  ultimately have yy: "root_of (l[nat rx := ry]) ry ry" using y(1) root_of.root by blast
  show ?case
  proof (cases "j = rx")
    case True
    from x have upd: "l[nat rx := ry] ! nat rx = ry" by (simp add: nth_update_same)
    have "root_of (l[nat rx := ry]) rx ry"
    proof (rule root_of.step)
      show "0 \<le> rx" by (rule x(1))
      show "rx < int (length (l[nat rx := ry]))" using x by simp
      show "l[nat rx := ry] ! nat rx \<noteq> rx" using upd ne by simp
      show "root_of (l[nat rx := ry]) (l[nat rx := ry] ! nat rx) ry" using upd yy by simp
    qed
    with True show ?thesis by simp
  next
    case False
    with root.hyps x have "l[nat rx := ry] ! nat j = j" by (simp add: nth_update_other)
    moreover have "j < int (length (l[nat rx := ry]))" using root.hyps by simp
    ultimately have "root_of (l[nat rx := ry]) j j" using root.hyps(1) root_of.root by blast
    with False show ?thesis by simp
  qed
next
  case (step j s)
  from root_of_root [OF rx] have x: "0 \<le> rx" "rx < int (length l)" "l ! nat rx = rx" by simp_all
  with step.hyps(3) have "j \<noteq> rx" by auto
  with step.hyps x have eq: "l[nat rx := ry] ! nat j = l ! nat j" by (simp add: nth_update_other)
  show ?case
  proof (rule root_of.step)
    show "0 \<le> j" by (rule step.hyps(1))
    show "j < int (length (l[nat rx := ry]))" using step.hyps by simp
    show "l[nat rx := ry] ! nat j \<noteq> j" using eq step.hyps(3) by simp
    show "root_of (l[nat rx := ry]) (l[nat rx := ry] ! nat j) (if s = rx then ry else s)"
      using eq step.IH by simp
  qed
qed


lemma find_root_of:
  "root_of parent x r \<Longrightarrow>
   \<exists>parent'. UnionFind_find parent x = Some (Inr (r, parent')) \<and> length parent' = length parent
     \<and> (\<forall>y s. root_of parent y s \<longrightarrow> root_of parent' y s)"
proof (induction rule: root_of.induct)
  case (root x)
  then have "UnionFind_find parent x = Some (Inr (x, parent))"
    by (subst UnionFind_find.simps) (simp add: getitem_valid_index)
  then show ?case by simp
next
  case (step x r)
  from step.IH obtain parent1 where
    f1: "UnionFind_find parent (parent ! nat x) = Some (Inr (r, parent1))"
    and len1: "length parent1 = length parent"
    and pres1: "\<forall>y s. root_of parent y s \<longrightarrow> root_of parent1 y s"
    by blast
  let ?parent2 = "parent1[nat x := r]"
  from step.hyps have "root_of parent x r" by (rule root_of.step)
  with pres1 have xr1: "root_of parent1 x r" by blast
  from step.hyps(1,2) len1 have set: "setitem parent1 x r = Inr ?parent2"
    by (simp add: setitem_valid_index)
  from step.hyps(1,2) len1 have get2: "getitem ?parent2 x = Inr r"
    by (simp add: getitem_valid_index)
  from step.hyps(1-3) f1 set get2 have "UnionFind_find parent x = Some (Inr (r, ?parent2))"
    by (subst UnionFind_find.simps) (simp add: getitem_valid_index)
  moreover have "length ?parent2 = length parent" using len1 by simp
  moreover have "\<forall>y s. root_of parent y s \<longrightarrow> root_of ?parent2 y s"
    using pres1 root_of_compress [OF xr1] by blast
  ultimately show ?case by blast
qed

definition uf_inv :: "int list \<Rightarrow> bool" where
  "uf_inv parent = (\<forall>x. 0 \<le> x \<and> x < int (length parent) \<longrightarrow> (\<exists>r. root_of parent x r))"

definition rep :: "int list \<Rightarrow> int \<Rightarrow> int" where
  "rep parent x = (THE r. root_of parent x r)"

lemma rep_eq: "root_of l x r \<Longrightarrow> rep l x = r"
  unfolding rep_def by (rule the_equality) (auto dest: root_of_unique)

lemma root_of_rep: "uf_inv l \<Longrightarrow> 0 \<le> x \<Longrightarrow> x < int (length l) \<Longrightarrow> root_of l x (rep l x)"
  using rep_eq unfolding uf_inv_def by blast

lemma preserved_roots:
  assumes "uf_inv l" and "length l' = length l"
    and "\<forall>y s. root_of l y s \<longrightarrow> root_of l' y s"
  shows "uf_inv l'" and "0 \<le> x \<Longrightarrow> x < int (length l) \<Longrightarrow> rep l' x = rep l x"
proof -
  show "uf_inv l'" using assms unfolding uf_inv_def by metis
  show "rep l' x = rep l x" if "0 \<le> x" "x < int (length l)"
    using root_of_rep [OF assms(1) that] assms(3) rep_eq by blast
qed

lemma find_valid:
  assumes "uf_inv parent" and "0 \<le> x" and "x < int (length parent)"
  shows "\<exists>parent'. UnionFind_find parent x = Some (Inr (rep parent x, parent'))
           \<and> length parent' = length parent \<and> uf_inv parent'
           \<and> (\<forall>a. 0 \<le> a \<and> a < int (length parent) \<longrightarrow> rep parent' a = rep parent a)"
proof -
  from find_root_of [OF root_of_rep [OF assms]] obtain parent' where
    f: "UnionFind_find parent x = Some (Inr (rep parent x, parent'))"
    and len: "length parent' = length parent"
    and pres: "\<forall>y s. root_of parent y s \<longrightarrow> root_of parent' y s"
    by blast
  from preserved_roots [OF assms(1) len pres] f len show ?thesis by blast
qed

lemma union_valid:
  assumes inv: "uf_inv parent"
    and x: "0 \<le> x" "x < int (length parent)"
    and y: "0 \<le> y" "y < int (length parent)"
  shows "\<exists>parent'. UnionFind_union parent x y = Some (Inr parent')
           \<and> length parent' = length parent \<and> uf_inv parent'
           \<and> (\<forall>a. 0 \<le> a \<and> a < int (length parent) \<longrightarrow>
                 rep parent' a = (if rep parent a = rep parent x then rep parent y else rep parent a))"
proof -
  from find_valid [OF inv x] obtain parent1 where
    f1: "UnionFind_find parent x = Some (Inr (rep parent x, parent1))"
    and len1: "length parent1 = length parent" and inv1: "uf_inv parent1"
    and rep1: "\<forall>a. 0 \<le> a \<and> a < int (length parent) \<longrightarrow> rep parent1 a = rep parent a"
    by blast
  from y len1 have y1: "0 \<le> y" "y < int (length parent1)" by simp_all
  from find_valid [OF inv1 y1] obtain parent2 where
    f2: "UnionFind_find parent1 y = Some (Inr (rep parent1 y, parent2))"
    and len2: "length parent2 = length parent1" and inv2: "uf_inv parent2"
    and rep2: "\<forall>a. 0 \<le> a \<and> a < int (length parent1) \<longrightarrow> rep parent2 a = rep parent1 a"
    by blast
  have rep12: "rep parent2 a = rep parent a" if "0 \<le> a" "a < int (length parent)" for a
    using rep1 rep2 len1 that by simp
  from rep1 y have ry: "rep parent1 y = rep parent y" by simp
  let ?rx = "rep parent x" and ?ry = "rep parent y"
  show ?thesis
  proof (cases "?rx = ?ry")
    case True
    with f1 f2 ry have "UnionFind_union parent x y = Some (Inr parent2)"
      by (simp add: UnionFind_union_def)
    with len1 len2 inv2 rep12 True show ?thesis by auto
  next
    case False
    from x y len1 len2 have x2: "0 \<le> x" "x < int (length parent2)"
      and y2: "0 \<le> y" "y < int (length parent2)" by simp_all
    from root_of_rep [OF inv2 x2] rep12 [OF x] have rx: "root_of parent2 x ?rx" by simp
    from root_of_rep [OF inv2 y2] rep12 [OF y] have ry2: "root_of parent2 y ?ry" by simp
    note rxx = root_of_self [OF rx] and ryy = root_of_self [OF ry2]
    let ?parent3 = "parent2[nat ?rx := ?ry]"
    from root_of_root [OF rx] have "setitem parent2 ?rx ?ry = Inr ?parent3"
      by (simp add: setitem_valid_index)
    with f1 f2 ry False have u: "UnionFind_union parent x y = Some (Inr ?parent3)"
      by (simp add: UnionFind_union_def)
    have link: "root_of ?parent3 a (if rep parent a = ?rx then ?ry else rep parent a)"
      if "0 \<le> a" "a < int (length parent)" for a
    proof -
      from that len1 len2 have "root_of parent2 a (rep parent2 a)"
        by (intro root_of_rep [OF inv2]) simp_all
      with rep12 [OF that] have "root_of parent2 a (rep parent a)" by simp
      from root_of_link [OF rxx ryy False this] show ?thesis .
    qed
    have "uf_inv ?parent3"
      unfolding uf_inv_def using link len1 len2 by auto
    moreover have "length ?parent3 = length parent" using len1 len2 by simp
    moreover have "\<forall>a. 0 \<le> a \<and> a < int (length parent) \<longrightarrow>
        rep ?parent3 a = (if rep parent a = ?rx then ?ry else rep parent a)"
      using link rep_eq by blast
    ultimately show ?thesis using u by blast
  qed
qed


lemma connected_insert:
  fixes E :: "('a \<times> 'a) set"
  defines "S \<equiv> (E \<union> E\<inverse>)\<^sup>*"
  shows "(a, b) \<in> (insert (x, y) E \<union> (insert (x, y) E)\<inverse>)\<^sup>* \<longleftrightarrow>
         (a, b) \<in> S \<or> ((a, x) \<in> S \<and> (y, b) \<in> S) \<or> ((a, y) \<in> S \<and> (x, b) \<in> S)"
    (is "?L \<longleftrightarrow> ?R a b")
proof
  assume ?L
  then show "?R a b"
  proof (induction rule: rtrancl_induct)
    case base
    show ?case by (simp add: S_def)
  next
    case (step b c)
    from step.hyps(2) consider (old) "(b, c) \<in> E \<union> E\<inverse>" | (xy) "b = x" "c = y" | (yx) "b = y" "c = x"
      by auto
    then show ?case
    proof cases
      case old
      then have "(b, c) \<in> S" by (auto simp: S_def)
      with step.IH show ?thesis
        unfolding S_def by (meson rtrancl_trans)
    next
      case xy
      have "(y, y) \<in> S" "(x, x) \<in> S" by (simp_all add: S_def)
      with step.IH xy show ?thesis by auto
    next
      case yx
      have "(y, y) \<in> S" "(x, x) \<in> S" by (simp_all add: S_def)
      with step.IH yx show ?thesis by auto
    qed
  qed
next
  let ?S' = "(insert (x, y) E \<union> (insert (x, y) E)\<inverse>)\<^sup>*"
  assume r: "?R a b"
  have sub: "(u, v) \<in> ?S'" if "(u, v) \<in> S" for u v
    using that unfolding S_def by (rule rtrancl_mono [THEN subsetD, rotated]) auto
  have xy: "(x, y) \<in> ?S'" and yx: "(y, x) \<in> ?S'" by auto
  from r consider "(a, b) \<in> S" | "(a, x) \<in> S" "(y, b) \<in> S" | "(a, y) \<in> S" "(x, b) \<in> S"
    by blast
  then show ?L
  proof cases
    case 1
    then show ?thesis by (rule sub)
  next
    case 2
    from sub [OF 2(1)] xy have "(a, y) \<in> ?S'" by (rule rtrancl_trans)
    from this sub [OF 2(2)] show ?thesis by (rule rtrancl_trans)
  next
    case 3
    from sub [OF 3(1)] yx have "(a, x) \<in> ?S'" by (rule rtrancl_trans)
    from this sub [OF 3(2)] show ?thesis by (rule rtrancl_trans)
  qed
qed

lemma connected_sym: "(a, b) \<in> (E \<union> E\<inverse>)\<^sup>* \<Longrightarrow> (b, a) \<in> (E \<union> E\<inverse>)\<^sup>*"
proof -
  have "sym (E \<union> E\<inverse>)" by (auto simp: sym_def)
  then have "sym ((E \<union> E\<inverse>)\<^sup>*)" by (rule sym_rtrancl)
  then show "(a, b) \<in> (E \<union> E\<inverse>)\<^sup>* \<Longrightarrow> (b, a) \<in> (E \<union> E\<inverse>)\<^sup>*" by (rule symD)
qed

definition uf_agrees :: "int list \<Rightarrow> (int \<times> int) set \<Rightarrow> bool" where
  "uf_agrees parent E =
     (\<forall>a b. 0 \<le> a \<and> a < int (length parent) \<and> 0 \<le> b \<and> b < int (length parent) \<longrightarrow>
        (rep parent a = rep parent b \<longleftrightarrow> (a, b) \<in> (E \<union> E\<inverse>)\<^sup>*))"

lemma union_agrees:
  assumes inv: "uf_inv parent"
    and x: "0 \<le> x" "x < int (length parent)"
    and y: "0 \<le> y" "y < int (length parent)"
    and agr: "uf_agrees parent E"
  shows "\<exists>parent'. UnionFind_union parent x y = Some (Inr parent')
           \<and> length parent' = length parent \<and> uf_inv parent'
           \<and> uf_agrees parent' (insert (x, y) E)"
proof -
  from union_valid [OF inv x y] obtain parent' where
    u: "UnionFind_union parent x y = Some (Inr parent')"
    and len: "length parent' = length parent" and inv': "uf_inv parent'"
    and r: "\<forall>a. 0 \<le> a \<and> a < int (length parent) \<longrightarrow>
              rep parent' a = (if rep parent a = rep parent x then rep parent y else rep parent a)"
    by blast
  let ?S = "(E \<union> E\<inverse>)\<^sup>*"
  have "rep parent' a = rep parent' b \<longleftrightarrow> (a, b) \<in> (insert (x, y) E \<union> (insert (x, y) E)\<inverse>)\<^sup>*"
    if a: "0 \<le> a" "a < int (length parent)" and b: "0 \<le> b" "b < int (length parent)" for a b
  proof -
    have c: "rep parent u = rep parent v \<longleftrightarrow> (u, v) \<in> ?S"
      if "0 \<le> u" "u < int (length parent)" "0 \<le> v" "v < int (length parent)" for u v
      using agr that unfolding uf_agrees_def by blast
    have "rep parent' a = rep parent' b \<longleftrightarrow>
          rep parent a = rep parent b
        \<or> (rep parent a = rep parent x \<and> rep parent y = rep parent b)
        \<or> (rep parent a = rep parent y \<and> rep parent x = rep parent b)"
      using r a b by auto
    also have "\<dots> \<longleftrightarrow> (a, b) \<in> ?S \<or> ((a, x) \<in> ?S \<and> (y, b) \<in> ?S) \<or> ((a, y) \<in> ?S \<and> (x, b) \<in> ?S)"
      using c [OF a b] c [OF a x] c [OF y b] c [OF a y] c [OF x b] by simp
    also have "\<dots> \<longleftrightarrow> (a, b) \<in> (insert (x, y) E \<union> (insert (x, y) E)\<inverse>)\<^sup>*"
      by (rule connected_insert [symmetric])
    finally show ?thesis .
  qed
  then have "uf_agrees parent' (insert (x, y) E)"
    unfolding uf_agrees_def len by blast
  with u len inv' show ?thesis by blast
qed

lemma unions_agrees:
  "uf_inv parent \<Longrightarrow> uf_agrees parent E \<Longrightarrow>
   \<forall>(x, y) \<in> set calls. 0 \<le> x \<and> x < int (length parent) \<and> 0 \<le> y \<and> y < int (length parent) \<Longrightarrow>
   \<exists>parent'. unions parent calls = Some (Inr parent')
     \<and> length parent' = length parent \<and> uf_inv parent'
     \<and> uf_agrees parent' (E \<union> set calls)"
proof (induction calls arbitrary: parent E)
  case Nil
  then show ?case by simp
next
  case (Cons c calls)
  obtain x y where c: "c = (x, y)" by (cases c)
  from Cons.prems(3) c have x: "0 \<le> x" "x < int (length parent)"
    and y: "0 \<le> y" "y < int (length parent)" by simp_all
  from union_agrees [OF Cons.prems(1) x y Cons.prems(2)] obtain parent1 where
    u: "UnionFind_union parent x y = Some (Inr parent1)"
    and len: "length parent1 = length parent" and inv1: "uf_inv parent1"
    and agr1: "uf_agrees parent1 (insert (x, y) E)"
    by blast
  from Cons.prems(3) len
  have "\<forall>(x, y) \<in> set calls. 0 \<le> x \<and> x < int (length parent1) \<and> 0 \<le> y \<and> y < int (length parent1)"
    by simp
  from Cons.IH [OF inv1 agr1 this] obtain parent' where
    "unions parent1 calls = Some (Inr parent')" "length parent' = length parent1"
    "uf_inv parent'" "uf_agrees parent' (insert (x, y) E \<union> set calls)"
    by blast
  with u len c show ?case by simp
qed

lemma root_of_UnionFind:
  assumes "0 \<le> a" and "a < n"
  shows "root_of (UnionFind n) a a"
proof (rule root_of.root)
  show "0 \<le> a" by (rule assms(1))
  show "a < int (length (UnionFind n))" using assms by (simp add: UnionFind_def)
  show "UnionFind n ! nat a = a" using assms by (simp add: UnionFind_def)
qed

lemma UnionFind_inv: "uf_inv (UnionFind n)"
  unfolding uf_inv_def using root_of_UnionFind [of _ n] by (auto simp: UnionFind_def)

lemma UnionFind_agrees: "uf_agrees (UnionFind n) {}"
  unfolding uf_agrees_def
proof (intro allI impI)
  fix a b
  assume "0 \<le> a \<and> a < int (length (UnionFind n)) \<and> 0 \<le> b \<and> b < int (length (UnionFind n))"
  then have "0 \<le> a" "a < n" "0 \<le> b" "b < n" by (auto simp: UnionFind_def split: if_splits)
  then have "rep (UnionFind n) a = a" "rep (UnionFind n) b = b"
    by (simp_all add: rep_eq root_of_UnionFind)
  then show "rep (UnionFind n) a = rep (UnionFind n) b \<longleftrightarrow> (a, b) \<in> ({} \<union> {}\<inverse>)\<^sup>*" by simp
qed

lemma unions_UnionFind:
  assumes "0 \<le> n"
    and "\<forall>(a, b) \<in> set calls. 0 \<le> a \<and> a < n \<and> 0 \<le> b \<and> b < n"
  shows "\<exists>parent. unions (UnionFind n) calls = Some (Inr parent)
           \<and> int (length parent) = n \<and> uf_inv parent \<and> uf_agrees parent (set calls)"
proof -
  from assms(1) have len: "int (length (UnionFind n)) = n" by (simp add: UnionFind_def)
  with assms(2) have "\<forall>(x, y) \<in> set calls.
      0 \<le> x \<and> x < int (length (UnionFind n)) \<and> 0 \<le> y \<and> y < int (length (UnionFind n))"
    by simp
  from unions_agrees [OF UnionFind_inv UnionFind_agrees this] len show ?thesis by auto
qed

text \<open>
  Claim C7. For every \<open>UnionFind\<close> over \<open>n\<close> elements, every finite sequence of \<open>union\<close>
  calls on ids in \<open>[0, n)\<close> and all \<open>x\<close>, \<open>y\<close> in \<open>[0, n)\<close>: the calls return, so do
  \<open>find(x)\<close> and then \<open>find(y)\<close>, and the two results are equal if and only if \<open>x\<close> and
  \<open>y\<close> are connected by the unioned pairs.
\<close>

theorem union_find_connected:
  assumes calls: "\<forall>(a, b) \<in> set calls. 0 \<le> a \<and> a < n \<and> 0 \<le> b \<and> b < n"
    and x: "0 \<le> x" "x < n" and y: "0 \<le> y" "y < n"
  shows "\<exists>parent root_x parent1 root_y parent2.
           unions (UnionFind n) calls = Some (Inr parent)
         \<and> UnionFind_find parent x = Some (Inr (root_x, parent1))
         \<and> UnionFind_find parent1 y = Some (Inr (root_y, parent2))
         \<and> (root_x = root_y \<longleftrightarrow> (x, y) \<in> connected calls)"
proof -
  from x have "0 \<le> n" by simp
  from unions_UnionFind [OF this calls] obtain parent where
    u: "unions (UnionFind n) calls = Some (Inr parent)"
    and len: "int (length parent) = n" and inv: "uf_inv parent"
    and agr: "uf_agrees parent (set calls)"
    by blast
  from x y len have xv: "0 \<le> x" "x < int (length parent)"
    and yv: "0 \<le> y" "y < int (length parent)" by simp_all
  from find_valid [OF inv xv] obtain parent1 where
    f1: "UnionFind_find parent x = Some (Inr (rep parent x, parent1))"
    and len1: "length parent1 = length parent" and inv1: "uf_inv parent1"
    and rep1: "\<forall>a. 0 \<le> a \<and> a < int (length parent) \<longrightarrow> rep parent1 a = rep parent a"
    by blast
  from yv len1 have yv1: "0 \<le> y" "y < int (length parent1)" by simp_all
  from find_valid [OF inv1 yv1] obtain parent2 where
    f2: "UnionFind_find parent1 y = Some (Inr (rep parent1 y, parent2))"
    by blast
  from rep1 yv have "rep parent1 y = rep parent y" by simp
  moreover from agr xv yv have "rep parent x = rep parent y \<longleftrightarrow> (x, y) \<in> connected calls"
    unfolding uf_agrees_def connected_def by blast
  ultimately show ?thesis using u f1 f2 by auto
qed

theorem union_find_connected_witness:
  "\<exists>parent root_x parent1 root_y parent2.
           unions (UnionFind 6) [(1, 2), (3, 4)] = Some (Inr parent)
         \<and> UnionFind_find parent 1 = Some (Inr (root_x, parent1))
         \<and> UnionFind_find parent1 2 = Some (Inr (root_y, parent2))
         \<and> (root_x = root_y \<longleftrightarrow> (1, 2) \<in> connected [(1, 2), (3, 4)])"
  using union_find_connected [of "[(1, 2), (3, 4)]" 6 1 2] by simp


lemma find_out_of_range:
  "x < - int (length parent) \<or> int (length parent) \<le> x \<Longrightarrow> UnionFind_find parent x = Some (Inl IndexError)"
  by (subst UnionFind_find.simps) (auto simp: getitem_def py_index_def Let_def)

text \<open>
  Claim C8, as amended. For every \<open>UnionFind\<close> over \<open>n\<close> elements, in the state after any
  sequence of \<open>union\<close> calls on ids in \<open>[0, n)\<close>, and every id \<open>x\<close> with \<open>x \<ge> n\<close> or
  \<open>x < -n\<close>: \<open>find(x)\<close> fails with \<open>IndexError\<close>, and so do \<open>union(x, y)\<close> for every \<open>y\<close>
  and \<open>union(y, x)\<close> for every \<open>y\<close> that is in \<open>[0, n)\<close> or itself outside \<open>[-n, n)\<close>.
\<close>

theorem union_find_out_of_range:
  assumes n: "0 \<le> n"
    and calls: "\<forall>(a, b) \<in> set calls. 0 \<le> a \<and> a < n \<and> 0 \<le> b \<and> b < n"
    and x: "x < - n \<or> n \<le> x"
  shows "\<exists>parent. unions (UnionFind n) calls = Some (Inr parent)
           \<and> UnionFind_find parent x = Some (Inl IndexError)
           \<and> (\<forall>y. UnionFind_union parent x y = Some (Inl IndexError))
           \<and> (\<forall>y. (0 \<le> y \<and> y < n) \<or> (y < - n \<or> n \<le> y) \<longrightarrow>
                  UnionFind_union parent y x = Some (Inl IndexError))"
proof -
  from unions_UnionFind [OF n calls] obtain parent where
    u: "unions (UnionFind n) calls = Some (Inr parent)"
    and len: "int (length parent) = n" and inv: "uf_inv parent"
    by blast
  from x len have fx: "UnionFind_find parent x = Some (Inl IndexError)"
    by (intro find_out_of_range) simp
  then have ux: "UnionFind_union parent x y = Some (Inl IndexError)" for y
    by (simp add: UnionFind_union_def)
  have uy: "UnionFind_union parent y x = Some (Inl IndexError)"
    if "(0 \<le> y \<and> y < n) \<or> (y < - n \<or> n \<le> y)" for y
    using that
  proof
    assume "0 \<le> y \<and> y < n"
    with len have "0 \<le> y" "y < int (length parent)" by simp_all
    from find_valid [OF inv this] obtain parent1 where
      f1: "UnionFind_find parent y = Some (Inr (rep parent y, parent1))"
      and len1: "length parent1 = length parent" by blast
    from x len len1 have "UnionFind_find parent1 x = Some (Inl IndexError)"
      by (intro find_out_of_range) simp
    with f1 show ?thesis by (simp add: UnionFind_union_def)
  next
    assume "y < - n \<or> n \<le> y"
    with len have "UnionFind_find parent y = Some (Inl IndexError)"
      by (intro find_out_of_range) simp
    then show ?thesis by (simp add: UnionFind_union_def)
  qed
  from u fx ux uy show ?thesis by blast
qed

theorem union_find_out_of_range_witness:
  "\<exists>parent. unions (UnionFind 3) [(0, 1)] = Some (Inr parent)
           \<and> UnionFind_find parent 3 = Some (Inl IndexError)
           \<and> (\<forall>y. UnionFind_union parent 3 y = Some (Inl IndexError))
           \<and> (\<forall>y. (0 \<le> y \<and> y < 3) \<or> (y < - 3 \<or> 3 \<le> y) \<longrightarrow>
                  UnionFind_union parent y 3 = Some (Inl IndexError))"
  using union_find_out_of_range [of 3 "[(0, 1)]" 3] by simp

text \<open>
  Claim C8 as stated fails: on a \<open>UnionFind\<close> over 3 elements, \<open>find(-1)\<close> is a call with
  an id outside \<open>[0, 3)\<close> that returns a result, the root 2; and \<open>find(3)\<close> fails with
  \<open>IndexError\<close>, the only error these calls raise.
\<close>

theorem find_negative_id_returns:
  "UnionFind_find (UnionFind 3) (- 1) = Some (Inr (2, [0, 1, 2]))
   \<and> UnionFind_find (UnionFind 3) 3 = Some (Inl IndexError)"
  by code_simp

end
